theory Spec2Isabelle
  imports Complex_Main "HOL-Library.Multiset"
begin

section \<open>Fourier ptychography notebook: arrays, window geometry, solver stages\<close>

text \<open>
  The notebook works on numpy arrays of \<open>float64\<close> and \<open>complex128\<close> numbers. Here a
  two-dimensional array is the list of its rows, a \<open>float64\<close> is a \<open>real\<close> and a
  \<open>complex128\<close> is a \<open>complex\<close>: the arithmetic is exact, rounding is not modelled.
  Python integers are \<open>int\<close>. An exception of Python or numpy is an error value.
  Where numpy would only warn and store \<open>inf\<close> or \<open>nan\<close> (a division by zero), the
  exact model has no value to go on with and ends in \<open>NonFinite\<close>; that is not an
  exception of the program, and what the program does after it is not modelled. A
  theorem that needs a division to succeed says so in a hypothesis on the divisor.
\<close>

datatype py_error = ValueError | IndexError | ZeroDivisionError | NonFinite

type_synonym 'a array2 = "'a list list"

text \<open>Sequencing of fallible steps: the first error ends the run, as a raise does.\<close>

definition and_then :: "py_error + 'a \<Rightarrow> ('a \<Rightarrow> py_error + 'b) \<Rightarrow> py_error + 'b" where
  "and_then m f = (case m of Inl e \<Rightarrow> Inl e | Inr v \<Rightarrow> f v)"

subsection \<open>Shapes and slices\<close>

text \<open>
  \<open>A.shape\<close> of a two-dimensional array. An array without rows is taken to have no
  columns either (the list of rows cannot tell shape \<open>(0, k)\<close> from \<open>(0, 0)\<close>).
\<close>

definition nrows :: "'a array2 \<Rightarrow> nat" where
  "nrows A = length A"

definition ncols :: "'a array2 \<Rightarrow> nat" where
  "ncols A = (case A of [] \<Rightarrow> 0 | r # _ \<Rightarrow> length r)"

definition is_shape :: "nat \<Rightarrow> nat \<Rightarrow> 'a array2 \<Rightarrow> bool" where
  "is_shape h w A = (length A = h \<and> list_all (\<lambda>r. length r = w) A)"

text \<open>
  The slice expressions of the source: \<open>a:b\<close>, \<open>a:\<close> and \<open>:\<close>. An endpoint is
  clipped to the axis as Python does it: a negative endpoint counts from the end, an
  endpoint past the end is the end, and a slice whose stop is before its start is empty.
\<close>

datatype slice = Range int int | From int | All

definition slice_bound :: "nat \<Rightarrow> int \<Rightarrow> nat" where
  "slice_bound n i = (if i < 0 then nat (int n + i) else min n (nat i))"

fun slice_bounds :: "nat \<Rightarrow> slice \<Rightarrow> nat \<times> nat" where
  "slice_bounds n (Range a b) = (slice_bound n a, slice_bound n b - slice_bound n a)"
| "slice_bounds n (From a) = (slice_bound n a, n - slice_bound n a)"
| "slice_bounds n All = (0, n)"

definition take_slice :: "slice \<Rightarrow> 'a list \<Rightarrow> 'a list" where
  "take_slice s xs = (case slice_bounds (length xs) s of (lo, len) \<Rightarrow> take len (drop lo xs))"

text \<open>\<open>A[s, t]\<close> read as a value.\<close>

definition get2 :: "'a array2 \<Rightarrow> slice \<Rightarrow> slice \<Rightarrow> 'a array2" where
  "get2 A s t = map (take_slice t) (take_slice s A)"

text \<open>
  numpy broadcasting of a block to shape \<open>(h, w)\<close>: an axis of the block fits when it
  has the wanted length or length 1 (then its one entry is repeated); anything else is
  "could not broadcast", a \<open>ValueError\<close>.
\<close>

definition broadcast_to :: "nat \<Rightarrow> nat \<Rightarrow> 'a array2 \<Rightarrow> py_error + 'a array2" where
  "broadcast_to h w B =
     (if (nrows B = h \<or> nrows B = 1) \<and> (ncols B = w \<or> ncols B = 1)
      then Inr (map (\<lambda>r. if ncols B = w then r else replicate w (hd r))
                    (if nrows B = h then B else replicate h (hd B)))
      else Inl ValueError)"

text \<open>
  \<open>A[s, t] = B\<close> (with \<open>f old new = new\<close>) and \<open>A[s, t] += B\<close> (with \<open>f = (+)\<close>):
  the block is broadcast to the shape of the addressed region, then combined into it.
  The array is returned updated.
\<close>

definition put_row :: "('a \<Rightarrow> 'a \<Rightarrow> 'a) \<Rightarrow> nat \<Rightarrow> nat \<Rightarrow> 'a list \<Rightarrow> 'a list \<Rightarrow> 'a list" where
  "put_row f c0 w row src =
     take c0 row @ map2 f (take w (drop c0 row)) src @ drop (c0 + w) row"

definition assign2 ::
  "('a \<Rightarrow> 'a \<Rightarrow> 'a) \<Rightarrow> 'a array2 \<Rightarrow> slice \<Rightarrow> slice \<Rightarrow> 'a array2 \<Rightarrow> py_error + 'a array2" where
  "assign2 f A s t B =
     (case slice_bounds (nrows A) s of (r0, h) \<Rightarrow>
      case slice_bounds (ncols A) t of (c0, w) \<Rightarrow>
        and_then (broadcast_to h w B) (\<lambda>B'.
          Inr (take r0 A @ map2 (put_row f c0 w) (take h (drop r0 A)) B' @ drop (r0 + h) A)))"

definition store :: "'a \<Rightarrow> 'a \<Rightarrow> 'a" where
  "store old new = new"

text \<open>\<open>numpy.matlib.repmat(A, m, n)\<close>: the array tiled \<open>m\<close> times down and \<open>n\<close> times across.\<close>

definition repmat :: "'a array2 \<Rightarrow> nat \<Rightarrow> nat \<Rightarrow> 'a array2" where
  "repmat A m n = concat (replicate m (map (\<lambda>r. concat (replicate n r)) A))"

subsection \<open>Window read and wrap-aware write-back\<close>

text \<open>
  The window of gradient descent, \<open>imageRecoverFTRep[x:x+L, y:y+L]\<close> with
  \<open>imageRecoverFTRep = repmat(imageRecoverFT, 2, 2)\<close>.
\<close>

definition extract_window :: "int \<Rightarrow> 'a array2 \<Rightarrow> int \<Rightarrow> int \<Rightarrow> 'a array2" where
  "extract_window L F x y = get2 (repmat F 2 2) (Range x (x + L)) (Range y (y + L))"

text \<open>
  The write-back of the projection stage: \<open>block\<close> (the source's \<open>inverse\<close>) is the corrected \<open>L \<times> L\<close> block. The
  first branch is the window that crosses no boundary; the other three split the block.
\<close>

definition write_window ::
  "int \<Rightarrow> int \<Rightarrow> 'a array2 \<Rightarrow> int \<Rightarrow> int \<Rightarrow> 'a array2 \<Rightarrow> py_error + 'a array2" where
  "write_window N L F x y block =
     (if \<not> x > N - L \<and> \<not> y > N - L then
        assign2 store F (Range x (x + L)) (Range y (y + L)) block
      else if x > N - L \<and> \<not> y > N - L then
        and_then (assign2 store F (Range x N) (Range y (y + L))
                    (get2 block (Range 0 (N - x)) All)) (\<lambda>F1.
        assign2 store F1 (Range 0 (L + x - N)) (Range y (y + L))
                    (get2 block (From (N - x)) All))
      else if \<not> x > N - L \<and> y > N - L then
        and_then (assign2 store F (Range x (x + L)) (Range y N)
                    (get2 block All (Range 0 (N - y)))) (\<lambda>F1.
        assign2 store F1 (Range x (x + L)) (Range 0 (L + y - N))
                    (get2 block All (From (N - y))))
      else
        and_then (assign2 store F (Range x N) (Range y N)
                    (get2 block (Range 0 (N - x)) (Range 0 (N - y)))) (\<lambda>F1.
        and_then (assign2 store F1 (Range 0 (L + x - N)) (Range 0 (L + y - N))
                    (get2 block (Range (N - x) N) (From (N - y)))) (\<lambda>F2.
        and_then (assign2 store F2 (Range x N) (Range 0 (L + y - N))
                    (get2 block (Range 0 (N - x)) (From (N - y)))) (\<lambda>F3.
        assign2 store F3 (Range 0 (L + x - N)) (Range y N)
                    (get2 block (From (N - x)) (Range 0 (N - y)))))))"

subsection \<open>Window geometry and the energy-normalization map\<close>

text \<open>
  \<open>int(N/pitch)\<close>: Python's true division followed by truncation towards zero. The
  division raises for \<open>pitch = 0\<close>. (The quotient is taken exactly; the rounding of the
  intermediate float for integers beyond \<open>2^53\<close> is not modelled.)
\<close>

definition trunc_div :: "int \<Rightarrow> int \<Rightarrow> int" where
  "trunc_div a b = sgn a * sgn b * (\<bar>a\<bar> div \<bar>b\<bar>)"

definition total_frame :: "int \<Rightarrow> int \<Rightarrow> py_error + int" where
  "total_frame N pitch =
     (if pitch = 0 then Inl ZeroDivisionError else Inr ((trunc_div N pitch) ^ 2))"

text \<open>\<open>np.arange(0, stop, step)\<close> on integers: \<open>ceil(stop / step)\<close> entries, none when that is negative.\<close>

definition arange :: "int \<Rightarrow> int \<Rightarrow> py_error + int list" where
  "arange stop step =
     (if step = 0 then Inl ZeroDivisionError
      else Inr (map (\<lambda>k. int k * step) [0..<nat (- ((- stop) div step))]))"

text \<open>
  \<open>xlocations, ylocations = np.meshgrid(mesh, mesh)\<close>, both flattened: \<open>xlocations\<close>
  runs through the mesh again and again, \<open>ylocations\<close> repeats each entry of the mesh.
\<close>

definition meshgrid_flat :: "int list \<Rightarrow> int list \<times> int list" where
  "meshgrid_flat mesh =
     (concat (replicate (length mesh) mesh), concat (map (replicate (length mesh)) mesh))"

text \<open>The geometry of a configuration: \<open>total_frame\<close>, \<open>xlocations\<close>, \<open>ylocations\<close>.\<close>

definition geometry :: "int \<Rightarrow> int \<Rightarrow> py_error + (int \<times> int list \<times> int list)" where
  "geometry N pitch =
     and_then (total_frame N pitch) (\<lambda>tf.
     and_then (arange N pitch) (\<lambda>mesh. Inr (tf, meshgrid_flat mesh)))"

text \<open>\<open>xs[i]\<close> for an index that is not negative.\<close>

definition item :: "'a list \<Rightarrow> nat \<Rightarrow> py_error + 'a" where
  "item xs i = (if i < length xs then Inr (xs ! i) else Inl IndexError)"

text \<open>\<open>np.zeros([h, w])\<close>; a negative dimension is a \<open>ValueError\<close>.\<close>

definition zeros2 :: "int \<Rightarrow> int \<Rightarrow> py_error + ('a::zero) array2" where
  "zeros2 h w = (if h < 0 \<or> w < 0 then Inl ValueError
                 else Inr (replicate (nat h) (replicate (nat w) 0)))"

text \<open>
  An elementwise operation of numpy on two arrays, with broadcasting: along each axis
  the lengths must agree or one of them be 1.
\<close>

definition np_binop :: "('a \<Rightarrow> 'b \<Rightarrow> 'c) \<Rightarrow> 'a array2 \<Rightarrow> 'b array2 \<Rightarrow> py_error + 'c array2" where
  "np_binop f A B =
     (let h = (if nrows A = 1 then nrows B else nrows A);
          w = (if ncols A = 1 then ncols B else ncols A)
      in and_then (broadcast_to h w A) (\<lambda>A'.
         and_then (broadcast_to h w B) (\<lambda>B'. Inr (map2 (map2 f) A' B'))))"

text \<open>
  The loop \<open>for i in range(total_frame): counts[x_i:x_i+L, y_i:y_i+L] += 1\<close> over the
  \<open>2N \<times> 2N\<close> grid; the scalar \<open>1\<close> is broadcast over the addressed region.
\<close>

fun count_loop ::
  "int \<Rightarrow> int list \<Rightarrow> int list \<Rightarrow> nat list \<Rightarrow> real array2 \<Rightarrow> py_error + real array2" where
  "count_loop L xl yl [] c = Inr c"
| "count_loop L xl yl (i # rest) c =
     and_then (item xl i) (\<lambda>x.
     and_then (item yl i) (\<lambda>y.
     and_then (assign2 (+) c (Range x (x + L)) (Range y (y + L)) [[1]]) (\<lambda>c'.
       count_loop L xl yl rest c')))"

text \<open>The fold of the grid: the sum of its four \<open>N \<times> N\<close> quadrants.\<close>

definition fold_quadrants :: "int \<Rightarrow> real array2 \<Rightarrow> py_error + real array2" where
  "fold_quadrants N c =
     and_then (np_binop (+) (get2 c (Range 0 N) (Range 0 N)) (get2 c (Range 0 N) (Range N (2 * N)))) (\<lambda>s1.
     and_then (np_binop (+) s1 (get2 c (Range N (2 * N)) (Range 0 N))) (\<lambda>s2.
     np_binop (+) s2 (get2 c (Range N (2 * N)) (Range N (2 * N)))))"

definition counts :: "int \<Rightarrow> int \<Rightarrow> int \<Rightarrow> py_error + real array2" where
  "counts N L pitch =
     and_then (geometry N pitch) (\<lambda>(tf, xl, yl).
     and_then (zeros2 (2 * N) (2 * N)) (\<lambda>c0.
     and_then (count_loop L xl yl [0..<nat tf] c0) (\<lambda>c.
     fold_quadrants N c)))"

subsection \<open>The update of gradient descent\<close>

text \<open>
  \<open>gradient_sum[...] += gradient_tensor[i, ...]\<close> for one window: \<open>block\<close> is
  \<open>gradient_tensor[i]\<close>. The four branches are those of the write-back, with \<open>+=\<close>.
\<close>

definition accumulate_window ::
  "int \<Rightarrow> int \<Rightarrow> complex array2 \<Rightarrow> int \<Rightarrow> int \<Rightarrow> complex array2 \<Rightarrow> py_error + complex array2" where
  "accumulate_window N L G x y block =
     (if \<not> x > N - L \<and> \<not> y > N - L then
        assign2 (+) G (Range x (x + L)) (Range y (y + L)) (get2 block All All)
      else if x > N - L \<and> \<not> y > N - L then
        and_then (assign2 (+) G (Range x N) (Range y (y + L))
                    (get2 block (Range 0 (N - x)) All)) (\<lambda>G1.
        assign2 (+) G1 (Range 0 (L + x - N)) (Range y (y + L))
                    (get2 block (From (N - x)) All))
      else if \<not> x > N - L \<and> y > N - L then
        and_then (assign2 (+) G (Range x (x + L)) (Range y N)
                    (get2 block All (Range 0 (N - y)))) (\<lambda>G1.
        assign2 (+) G1 (Range x (x + L)) (Range 0 (L + y - N))
                    (get2 block All (From (N - y))))
      else
        and_then (assign2 (+) G (Range x N) (Range y N)
                    (get2 block (Range 0 (N - x)) (Range 0 (N - y)))) (\<lambda>G1.
        and_then (assign2 (+) G1 (Range 0 (L + x - N)) (Range 0 (L + y - N))
                    (get2 block (Range (N - x) N) (From (N - y)))) (\<lambda>G2.
        and_then (assign2 (+) G2 (Range x N) (Range 0 (L + y - N))
                    (get2 block (Range 0 (N - x)) (From (N - y)))) (\<lambda>G3.
        assign2 (+) G3 (Range 0 (L + x - N)) (Range y N)
                    (get2 block (From (N - x)) (Range 0 (N - y)))))))"

text \<open>The loop \<open>for i in range(total_frame)\<close> of the scatter-accumulation.\<close>

fun accumulate_loop ::
  "int \<Rightarrow> int \<Rightarrow> int list \<Rightarrow> int list \<Rightarrow> complex array2 list \<Rightarrow> nat list \<Rightarrow> complex array2
     \<Rightarrow> py_error + complex array2" where
  "accumulate_loop N L xl yl gradient_tensor [] G = Inr G"
| "accumulate_loop N L xl yl gradient_tensor (i # rest) G =
     and_then (item xl i) (\<lambda>x.
     and_then (item yl i) (\<lambda>y.
     and_then (item gradient_tensor i) (\<lambda>block.
     and_then (accumulate_window N L G x y block) (\<lambda>G'.
       accumulate_loop N L xl yl gradient_tensor rest G'))))"

text \<open>
  Elementwise division of a complex array by a real one, with broadcasting. Division by
  zero is no exception in numpy (the entry becomes \<open>inf\<close> or \<open>nan\<close>); here the result
  is \<open>NonFinite\<close>.
\<close>

definition np_divide :: "complex array2 \<Rightarrow> real array2 \<Rightarrow> py_error + complex array2" where
  "np_divide A B =
     and_then (np_binop Pair A B) (\<lambda>P.
       if list_ex (list_ex (\<lambda>(a, b). b = 0)) P then Inl NonFinite
       else Inr (map (map (\<lambda>(a, b). a / complex_of_real b)) P))"

text \<open>
  Lines 283 to 299 for a given \<open>gradient_tensor\<close> (the result of \<open>sess.run\<close>):
  \<open>gradient_sum = np.zeros([N, N]) * 1j\<close>, the scatter-accumulation, and
  \<open>imageRecoverFT = imageRecoverFT - lr * gradient_sum / counts\<close>.
\<close>

definition gd_update ::
  "int \<Rightarrow> int \<Rightarrow> int \<Rightarrow> int list \<Rightarrow> int list \<Rightarrow> real \<Rightarrow> real array2 \<Rightarrow> complex array2
     \<Rightarrow> complex array2 list \<Rightarrow> py_error + complex array2" where
  "gd_update N L tf xl yl lr cnt imageRecoverFT gradient_tensor =
     and_then (zeros2 N N) (\<lambda>gradient_sum0.
     and_then (accumulate_loop N L xl yl gradient_tensor [0..<nat tf] gradient_sum0) (\<lambda>gradient_sum.
     and_then (np_divide (map (map (\<lambda>v. complex_of_real lr * v)) gradient_sum) cnt) (\<lambda>step.
     np_binop (-) imageRecoverFT step)))"

subsection \<open>Transforms, shifts and padding\<close>













subsection \<open>Configuration\<close>




subsection \<open>The forward measurement chain\<close>


subsection \<open>Measurement synthesis\<close>






subsection \<open>The projection stage\<close>




subsection \<open>The gradient-descent stage\<close>




subsection \<open>One trial of \<open>run_simulation\<close>\<close>







text \<open>
  For the proofs only: the entries \<open>x, \<dots>, x + L - 1\<close> of a list laid out twice, which
  is one axis of a window of the tiled array.
\<close>

definition wrap1 :: "int \<Rightarrow> int \<Rightarrow> 'a list \<Rightarrow> 'a list" where
  "wrap1 L x xs = take_slice (Range x (x + L)) (xs @ xs)"


text \<open>
  For the proofs only: a list whose entries \<open>a, \<dots>, a + h - 1\<close> have been changed by \<open>g\<close>,
  which is what an in-place update of a slice does along one axis.
\<close>

definition patch :: "nat \<Rightarrow> nat \<Rightarrow> ('a \<Rightarrow> 'a) \<Rightarrow> 'a list \<Rightarrow> 'a list" where
  "patch a h g xs = take a xs @ map g (take h (drop a xs)) @ drop (a + h) xs"

text \<open>The sum of all entries of an array, and the property that every entry is at least 1.\<close>

definition array_sum :: "real array2 \<Rightarrow> real" where
  "array_sum A = sum_list (map sum_list A)"

definition all_entries :: "('a \<Rightarrow> bool) \<Rightarrow> 'a array2 \<Rightarrow> bool" where
  "all_entries P A = list_all (list_all P) A"




section \<open>Properties\<close>

subsection \<open>Slices and write-back of what has been read\<close>

lemma slice_bound_le: "slice_bound n i \<le> n"
  by (auto simp: slice_bound_def)

lemma slice_bounds_le: "slice_bounds n s = (lo, len) \<Longrightarrow> lo + len \<le> n"
proof (cases s)
  case (Range a b)
  assume "slice_bounds n s = (lo, len)"
  with Range slice_bound_le [of n a] slice_bound_le [of n b] show ?thesis by auto
next
  case (From a)
  assume "slice_bounds n s = (lo, len)"
  with From slice_bound_le [of n a] show ?thesis by auto
next
  case All
  assume "slice_bounds n s = (lo, len)"
  with All show ?thesis by auto
qed

lemma slice_bound_nonneg: "0 \<le> i \<Longrightarrow> slice_bound n i = min n (nat i)"
  by (simp add: slice_bound_def)

lemma take_slice_Range: "0 \<le> a \<Longrightarrow> 0 \<le> b \<Longrightarrow> take_slice (Range a b) xs = take (nat b - nat a) (drop (nat a) xs)"
  by (auto simp: take_slice_def slice_bound_nonneg min_def)

lemma take_slice_From: "0 \<le> a \<Longrightarrow> take_slice (From a) xs = drop (nat a) xs"
  by (auto simp: take_slice_def slice_bound_nonneg min_def)

lemma take_slice_All: "take_slice All xs = xs"
  by (simp add: take_slice_def)

lemma map2_store_same: "map2 store xs xs = xs"
  by (induction xs) (simp_all add: store_def)

lemma put_row_same: "put_row store c0 w row (take w (drop c0 row)) = row"
proof -
  have "take w (drop c0 row) @ drop (c0 + w) row = drop c0 row"
    by (metis append_take_drop_id drop_drop add.commute)
  then show ?thesis by (simp add: put_row_def map2_store_same)
qed

lemma ncols_rows: "A \<noteq> [] \<Longrightarrow> list_all (\<lambda>r. length r = w) A \<Longrightarrow> ncols A = w"
  by (cases A) (simp_all add: ncols_def)

lemma broadcast_to_same: "nrows B = h \<Longrightarrow> ncols B = w \<Longrightarrow> broadcast_to h w B = Inr B"
  by (simp add: broadcast_to_def)

lemma assign2_same:
  assumes "is_shape R C A"
    and "slice_bounds (nrows A) s = (r0, h)" and "slice_bounds (ncols A) t = (c0, w)"
    and "0 < h \<or> w = 0"
  shows "assign2 store A s t (get2 A s t) = Inr A"
proof -
  have R: "length A = R" and rows: "\<And>r. r \<in> set A \<Longrightarrow> length r = C"
    using assms(1) by (auto simp: is_shape_def list_all_iff)
  have hR: "r0 + h \<le> R" and wC: "c0 + w \<le> ncols A"
    using assms(2,3) R by (auto dest: slice_bounds_le simp: nrows_def)
  define rowsel where "rowsel = take h (drop r0 A)"
  have len_rowsel: "length rowsel = h" using hR R by (simp add: rowsel_def)
  have rowsel_rows: "\<And>r. r \<in> set rowsel \<Longrightarrow> length r = ncols A"
  proof -
    fix r assume "r \<in> set rowsel"
    then have "r \<in> set A" by (auto simp: rowsel_def dest!: in_set_takeD in_set_dropD)
    then show "length r = ncols A" using rows by (cases A) (auto simp: ncols_def)
  qed
  have g: "get2 A s t = map (\<lambda>r. take w (drop c0 r)) rowsel"
    using assms(2,3) rowsel_rows
    by (auto simp: get2_def take_slice_def rowsel_def nrows_def)
  have nr: "nrows (get2 A s t) = h" by (simp add: g nrows_def len_rowsel)
  have nc: "ncols (get2 A s t) = w"
  proof (cases rowsel)
    case Nil
    then show ?thesis using assms(4) len_rowsel by (simp add: g ncols_def)
  next
    case (Cons r rs)
    then have "length r = ncols A" using rowsel_rows by simp
    then show ?thesis using wC Cons by (simp add: g ncols_def)
  qed
  have m: "map2 (put_row store c0 w) rowsel (map (\<lambda>r. take w (drop c0 r)) rowsel) = rowsel"
    by (induction rowsel) (simp_all add: put_row_same)
  have "take r0 A @ rowsel @ drop (r0 + h) A = A"
    unfolding rowsel_def by (metis append_take_drop_id drop_drop add.commute)
  then show ?thesis
    using assms(2,3) broadcast_to_same [OF nr nc] m
    by (simp add: assign2_def and_then_def g flip: rowsel_def)
qed


lemma repmat_2_2: "repmat F 2 2 = map (\<lambda>r. r @ r) F @ map (\<lambda>r. r @ r) F"
  by (simp add: repmat_def numeral_2_eq_2)

lemma take_slice_map: "take_slice s (map g xs) = map g (take_slice s xs)"
  by (simp add: take_slice_def take_map drop_map split: prod.splits)

lemma extract_window_wrap1:
  "extract_window L F x y = map (wrap1 L y) (wrap1 L x F)"
  by (simp add: extract_window_def get2_def repmat_2_2 wrap1_def take_slice_map flip: map_append)

lemma wrap1_inside:
  assumes "length xs = nat N" "0 \<le> L" "0 \<le> x" "\<not> x > N - L"
  shows "wrap1 L x xs = take_slice (Range x (x + L)) xs"
  using assms by (simp add: wrap1_def take_slice_Range)

lemma wrap1_cross:
  assumes "length xs = nat N" "L \<le> N" "0 \<le> x" "x < N" "x > N - L"
  shows "wrap1 L x xs = drop (nat x) xs @ take (nat (L + x - N)) xs"
  using assms by (simp add: wrap1_def take_slice_Range nat_diff_distrib nat_add_distrib)

lemma wrap1_cross_head:
  assumes "length xs = nat N" "L \<le> N" "0 \<le> x" "x < N" "x > N - L"
  shows "take_slice (Range 0 (N - x)) (wrap1 L x xs) = take_slice (Range x N) xs"
  using assms by (simp add: wrap1_cross take_slice_Range nat_diff_distrib)

lemma wrap1_cross_tail:
  assumes "length xs = nat N" "L \<le> N" "0 \<le> x" "x < N" "x > N - L"
  shows "take_slice (From (N - x)) (wrap1 L x xs) = take_slice (Range 0 (L + x - N)) xs"
  using assms by (simp add: wrap1_cross take_slice_Range take_slice_From nat_diff_distrib)

lemma wrap1_cross_tail':
  assumes "length xs = nat N" "L \<le> N" "0 \<le> x" "x < N" "x > N - L"
  shows "take_slice (Range (N - x) N) (wrap1 L x xs) = take_slice (Range 0 (L + x - N)) xs"
  using assms by (simp add: wrap1_cross take_slice_Range nat_diff_distrib)


lemma assign2_same':
  assumes "is_shape R C A"
    and "0 < snd (slice_bounds (nrows A) s) \<or> snd (slice_bounds (ncols A) t) = 0"
  shows "assign2 store A s t (get2 A s t) = Inr A"
  using assign2_same [OF assms(1), of s "fst (slice_bounds (nrows A) s)" "snd (slice_bounds (nrows A) s)"
      t "fst (slice_bounds (ncols A) t)" "snd (slice_bounds (ncols A) t)"] assms(2)
  by simp

lemma set_take_slice: "set (take_slice s xs) \<subseteq> set xs"
  by (auto simp: take_slice_def split: prod.splits dest!: in_set_takeD in_set_dropD)

lemma get2_window:
  assumes rows: "take_slice s (wrap1 L x F) = take_slice s' F"
    and cols: "\<And>r. r \<in> set F \<Longrightarrow> take_slice t (wrap1 L y r) = take_slice t' r"
  shows "get2 (extract_window L F x y) s t = get2 F s' t'"
proof -
  have "get2 (extract_window L F x y) s t
        = map (\<lambda>r. take_slice t (wrap1 L y r)) (take_slice s (wrap1 L x F))"
    by (simp add: get2_def extract_window_wrap1 take_slice_map)
  also have "\<dots> = map (\<lambda>r. take_slice t (wrap1 L y r)) (take_slice s' F)"
    by (simp add: rows)
  also have "\<dots> = map (take_slice t') (take_slice s' F)"
    using cols set_take_slice [of s' F] by (intro map_cong) auto
  finally show ?thesis by (simp add: get2_def)
qed

lemma get2_All_All: "get2 A All All = A"
  by (simp add: get2_def take_slice_All map_idI)

lemma write_extract_id:
  assumes F: "is_shape (nat N) (nat N) F"
    and L: "0 \<le> L" "L \<le> N" and x: "0 \<le> x" "x < N" and y: "0 \<le> y" "y < N"
  shows "write_window N L F x y (extract_window L F x y) = Inr F"
proof -
  have lenF: "length F = nat N" and rows: "\<And>r. r \<in> set F \<Longrightarrow> length r = nat N"
    using F by (auto simp: is_shape_def list_all_iff)
  have nr: "nrows F = nat N" by (simp add: nrows_def lenF)
  have nc: "ncols F = nat N" using lenF rows x by (cases F) (auto simp: ncols_def)
  consider (direct) "\<not> x > N - L" "\<not> y > N - L"
    | (cross_x) "x > N - L" "\<not> y > N - L"
    | (cross_y) "\<not> x > N - L" "y > N - L"
    | (cross_xy) "x > N - L" "y > N - L" by blast
  then show ?thesis
  proof cases
    case direct
    have "get2 (extract_window L F x y) All All = get2 F (Range x (x + L)) (Range y (y + L))"
      using direct L x y lenF rows
      by (intro get2_window) (simp_all add: take_slice_All wrap1_inside [where N = N])
    then have "extract_window L F x y = get2 F (Range x (x + L)) (Range y (y + L))"
      by (simp add: get2_All_All)
    moreover have "assign2 store F (Range x (x + L)) (Range y (y + L))
        (get2 F (Range x (x + L)) (Range y (y + L))) = Inr F"
      using direct L x y
      by (intro assign2_same' [OF F]) (auto simp: nr nc slice_bound_nonneg)
    ultimately show ?thesis
      using direct by (simp add: write_window_def)
  next
    case cross_x
    have b1: "get2 (extract_window L F x y) (Range 0 (N - x)) All
        = get2 F (Range x N) (Range y (y + L))"
      using cross_x L x y lenF rows
      by (intro get2_window)
         (simp_all add: take_slice_All wrap1_inside [where N = N] wrap1_cross_head)
    have b2: "get2 (extract_window L F x y) (From (N - x)) All
        = get2 F (Range 0 (L + x - N)) (Range y (y + L))"
      using cross_x L x y lenF rows
      by (intro get2_window)
         (simp_all add: take_slice_All wrap1_inside [where N = N] wrap1_cross_tail)
    have a1: "assign2 store F (Range x N) (Range y (y + L))
        (get2 F (Range x N) (Range y (y + L))) = Inr F"
      using cross_x L x y
      by (intro assign2_same' [OF F]) (auto simp: nr nc slice_bound_nonneg)
    have a2: "assign2 store F (Range 0 (L + x - N)) (Range y (y + L))
        (get2 F (Range 0 (L + x - N)) (Range y (y + L))) = Inr F"
      using cross_x L x y
      by (intro assign2_same' [OF F]) (auto simp: nr nc slice_bound_nonneg)
    show ?thesis
      using cross_x by (simp add: write_window_def b1 b2 a1 a2 and_then_def)
  next
    case cross_y
    have b1: "get2 (extract_window L F x y) All (Range 0 (N - y))
        = get2 F (Range x (x + L)) (Range y N)"
      using cross_y L x y lenF rows
      by (intro get2_window)
         (simp_all add: take_slice_All wrap1_inside [where N = N] wrap1_cross_head)
    have b2: "get2 (extract_window L F x y) All (From (N - y))
        = get2 F (Range x (x + L)) (Range 0 (L + y - N))"
      using cross_y L x y lenF rows
      by (intro get2_window)
         (simp_all add: take_slice_All wrap1_inside [where N = N] wrap1_cross_tail)
    have a1: "assign2 store F (Range x (x + L)) (Range y N)
        (get2 F (Range x (x + L)) (Range y N)) = Inr F"
      using cross_y L x y
      by (intro assign2_same' [OF F]) (auto simp: nr nc slice_bound_nonneg)
    have a2: "assign2 store F (Range x (x + L)) (Range 0 (L + y - N))
        (get2 F (Range x (x + L)) (Range 0 (L + y - N))) = Inr F"
      using cross_y L x y
      by (intro assign2_same' [OF F]) (auto simp: nr nc slice_bound_nonneg)
    show ?thesis
      using cross_y by (simp add: write_window_def b1 b2 a1 a2 and_then_def)
  next
    case cross_xy
    have b1: "get2 (extract_window L F x y) (Range 0 (N - x)) (Range 0 (N - y))
        = get2 F (Range x N) (Range y N)"
      using cross_xy L x y lenF rows
      by (intro get2_window) (simp_all add: wrap1_cross_head)
    have b2: "get2 (extract_window L F x y) (Range (N - x) N) (From (N - y))
        = get2 F (Range 0 (L + x - N)) (Range 0 (L + y - N))"
      using cross_xy L x y lenF rows
      by (intro get2_window) (simp_all add: wrap1_cross_tail wrap1_cross_tail')
    have b3: "get2 (extract_window L F x y) (Range 0 (N - x)) (From (N - y))
        = get2 F (Range x N) (Range 0 (L + y - N))"
      using cross_xy L x y lenF rows
      by (intro get2_window) (simp_all add: wrap1_cross_tail wrap1_cross_head)
    have b4: "get2 (extract_window L F x y) (From (N - x)) (Range 0 (N - y))
        = get2 F (Range 0 (L + x - N)) (Range y N)"
      using cross_xy L x y lenF rows
      by (intro get2_window) (simp_all add: wrap1_cross_tail wrap1_cross_head)
    have a1: "assign2 store F (Range x N) (Range y N) (get2 F (Range x N) (Range y N)) = Inr F"
      using cross_xy L x y
      by (intro assign2_same' [OF F]) (auto simp: nr nc slice_bound_nonneg)
    have a2: "assign2 store F (Range 0 (L + x - N)) (Range 0 (L + y - N))
        (get2 F (Range 0 (L + x - N)) (Range 0 (L + y - N))) = Inr F"
      using cross_xy L x y
      by (intro assign2_same' [OF F]) (auto simp: nr nc slice_bound_nonneg)
    have a3: "assign2 store F (Range x N) (Range 0 (L + y - N))
        (get2 F (Range x N) (Range 0 (L + y - N))) = Inr F"
      using cross_xy L x y
      by (intro assign2_same' [OF F]) (auto simp: nr nc slice_bound_nonneg)
    have a4: "assign2 store F (Range 0 (L + x - N)) (Range y N)
        (get2 F (Range 0 (L + x - N)) (Range y N)) = Inr F"
      using cross_xy L x y
      by (intro assign2_same' [OF F]) (auto simp: nr nc slice_bound_nonneg)
    show ?thesis
      using cross_xy by (simp add: write_window_def b1 b2 b3 b4 a1 a2 a3 a4 and_then_def)
  qed
qed

subsection \<open>Coordinates of the geometry\<close>

lemma ceil_div_bound:
  fixes N pitch :: int
  assumes "0 < pitch" "int k < - ((- N) div pitch)"
  shows "int k * pitch < N"
proof -
  define q where "q = (- N) div pitch"
  have "- N = q * pitch + (- N) mod pitch" by (simp add: q_def)
  moreover have "(- N) mod pitch < pitch" using assms(1) by simp
  ultimately have "- N < (q + 1) * pitch" by (simp add: algebra_simps)
  moreover have "(q + 1) * pitch \<le> (- int k) * pitch"
    using assms by (intro mult_right_mono) (simp_all add: q_def)
  ultimately show ?thesis by simp
qed

lemma arange_range:
  assumes "arange N pitch = Inr mesh" "0 \<le> N" "v \<in> set mesh"
  shows "0 \<le> v \<and> v < N"
proof -
  have p0: "pitch \<noteq> 0" and mesh: "mesh = map (\<lambda>k. int k * pitch) [0..<nat (- ((- N) div pitch))]"
    using assms(1) by (auto simp: arange_def split: if_splits)
  from assms(3) have "\<exists>k. v = int k * pitch \<and> int k < - ((- N) div pitch)"
    unfolding mesh by (auto simp: zless_nat_eq_int_zless)
  then obtain k where k: "v = int k * pitch" "int k < - ((- N) div pitch)" by blast
  show ?thesis
  proof (cases "pitch < 0")
    case True
    then have "0 \<le> (- N) div pitch" using assms(2) by (auto simp: div_int_pos_iff)
    with k(2) show ?thesis by simp
  next
    case False
    with p0 have pos: "0 < pitch" by simp
    with k ceil_div_bound [OF pos k(2)] show ?thesis by simp
  qed
qed

lemma set_meshgrid_flat:
  "set (fst (meshgrid_flat mesh)) \<subseteq> set mesh" "set (snd (meshgrid_flat mesh)) \<subseteq> set mesh"
  by (auto simp: meshgrid_flat_def)

lemma item_in_set: "item xs i = Inr v \<Longrightarrow> v \<in> set xs"
  by (auto simp: item_def split: if_splits)

lemma geometry_coordinates:
  assumes "geometry N pitch = Inr (tf, xl, yl)" "0 \<le> N"
  shows "\<forall>v \<in> set xl \<union> set yl. 0 \<le> v \<and> v < N"
proof -
  from assms(1) obtain mesh where m: "arange N pitch = Inr mesh" "(xl, yl) = meshgrid_flat mesh"
    by (auto simp: geometry_def and_then_def split: sum.splits)
  have "set xl \<subseteq> set mesh" "set yl \<subseteq> set mesh"
    using set_meshgrid_flat [of mesh] m(2) by (metis fst_conv, metis snd_conv)
  with arange_range [OF m(1) assms(2)] show ?thesis by blast
qed

subsection \<open>Reading a window and writing it back\<close>

text \<open>
  Claim C1. Let \<open>F\<close> be an \<open>N \<times> N\<close> spectrum estimate, \<open>0 \<le> L \<le> N\<close>, and \<open>(x, y)\<close> the
  coordinate of a window of the geometry. Reading the \<open>L \<times> L\<close> window at \<open>(x, y)\<close> from
  the \<open>2 \<times> 2\<close> tiling of \<open>F\<close> and writing that block back at \<open>(x, y)\<close> with the
  write-back of the projection stage (direct, split in \<open>x\<close>, split in \<open>y\<close> or split
  four ways) raises nothing and gives \<open>F\<close> again. The entries are only moved, so the
  statement holds for entries of any type, complex numbers among them.
\<close>

theorem window_write_back_inverse:
  assumes "is_shape (nat N) (nat N) F" and "0 \<le> L" and "L \<le> N"
    and "geometry N pitch = Inr (tf, xlocations, ylocations)"
    and "item xlocations i = Inr x" and "item ylocations i = Inr y"
  shows "write_window N L F x y (extract_window L F x y) = Inr F"
proof -
  have "0 \<le> N" using assms(2,3) by simp
  from geometry_coordinates [OF assms(4) this] item_in_set [OF assms(5)] item_in_set [OF assms(6)]
  have "0 \<le> x" "x < N" "0 \<le> y" "y < N" by auto
  with assms(1,2,3) show ?thesis by (intro write_extract_id)
qed

theorem window_write_back_inverse_witness:
  "is_shape (nat 3) (nat 3) [[1, 2, 3], [4, 5, 6], [7, 8, 9 :: complex]]
   \<and> geometry 3 1 = Inr (9, [0, 1, 2, 0, 1, 2, 0, 1, 2], [0, 0, 0, 1, 1, 1, 2, 2, 2])
   \<and> item [0, 1, 2, 0, 1, 2, 0, 1, 2 :: int] 8 = Inr 2
   \<and> item [0, 0, 0, 1, 1, 1, 2, 2, 2 :: int] 8 = Inr 2
   \<and> write_window 3 2 [[1, 2, 3], [4, 5, 6], [7, 8, 9 :: complex]] 2 2
        (extract_window 2 [[1, 2, 3], [4, 5, 6], [7, 8, 9 :: complex]] 2 2)
      = Inr [[1, 2, 3], [4, 5, 6], [7, 8, 9]]"
proof -
  have s: "is_shape (nat 3) (nat 3) [[1, 2, 3], [4, 5, 6], [7, 8, 9 :: complex]]"
    by (simp add: is_shape_def)
  have g: "geometry 3 1 = Inr (9, [0, 1, 2, 0, 1, 2, 0, 1, 2], [0, 0, 0, 1, 1, 1, 2, 2, 2])"
    by code_simp
  have i: "item [0, 1, 2, 0, 1, 2, 0, 1, 2 :: int] 8 = Inr 2"
    and j: "item [0, 0, 0, 1, 1, 1, 2, 2, 2 :: int] 8 = Inr 2"
    by (simp_all add: item_def)
  have "(0::int) \<le> 2" and "(2::int) \<le> 3" by simp_all
  from window_write_back_inverse [OF s this g i j] s g i j show ?thesis by simp
qed

subsection \<open>The energy-normalization map: the counting loop and the fold\<close>

lemma broadcast_to_scalar: "broadcast_to h w [[v]] = Inr (replicate h (replicate w v))"
  by (auto simp: broadcast_to_def nrows_def ncols_def)

lemma map2_replicate:
  "length xs \<le> n \<Longrightarrow> map2 f xs (replicate n v) = map (\<lambda>x. f x v) xs"
proof (induction xs arbitrary: n)
  case Nil
  then show ?case by simp
next
  case (Cons x xs)
  then obtain k where "n = Suc k" by (cases n) auto
  with Cons show ?case by simp
qed

lemma put_row_replicate:
  "put_row f c0 w row (replicate w v) = patch c0 w (\<lambda>x. f x v) row"
  by (simp add: put_row_def patch_def map2_replicate)

lemma assign2_scalar:
  "assign2 f c s t [[v]] =
     Inr (patch (fst (slice_bounds (nrows c) s)) (snd (slice_bounds (nrows c) s))
            (patch (fst (slice_bounds (ncols c) t)) (snd (slice_bounds (ncols c) t)) (\<lambda>x. f x v)) c)"
  by (simp add: assign2_def broadcast_to_scalar and_then_def map2_replicate put_row_replicate
      patch_def split: prod.splits)

lemma length_patch [simp]: "length (patch a h g xs) = length xs"
  by (auto simp: patch_def)

lemma nth_patch:
  "i < length xs \<Longrightarrow> patch a h g xs ! i = (if a \<le> i \<and> i < a + h then g (xs ! i) else xs ! i)"
  by (auto simp: patch_def nth_append)

lemma sum_list_patch_inc:
  fixes xs :: "real list"
  assumes "a + h \<le> length xs"
  shows "sum_list (patch a h (\<lambda>v. v + 1) xs) = sum_list xs + real h"
proof -
  have "sum_list (map (\<lambda>v. v + 1) (take h (drop a xs))) = sum_list (take h (drop a xs)) + real h"
    using assms by (simp add: sum_list_addf sum_list_triv)
  moreover have "sum_list xs = sum_list (take a xs) + sum_list (take h (drop a xs)) + sum_list (drop (a + h) xs)"
    by (metis append_take_drop_id sum_list_append drop_drop add.commute add.assoc)
  ultimately show ?thesis by (simp add: patch_def)
qed


lemma is_shape_patch:
  assumes "is_shape R C c"
  shows "is_shape R C (patch r0 h (patch c0 w g) c)"
proof -
  have "list_all (\<lambda>r. length r = C) (patch r0 h (patch c0 w g) c)"
    using assms unfolding is_shape_def list_all_iff patch_def [of r0]
    by (auto dest!: in_set_takeD in_set_dropD)
  then show ?thesis using assms by (simp add: is_shape_def)
qed

lemma array_sum_patch_inc:
  assumes "is_shape R C c" "r0 + h \<le> R" "c0 + w \<le> C"
  shows "array_sum (patch r0 h (patch c0 w (\<lambda>v. v + 1)) c) = array_sum c + real (h * w)"
proof -
  have len: "length c = R" and rows: "\<And>r. r \<in> set c \<Longrightarrow> length r = C"
    using assms(1) by (auto simp: is_shape_def list_all_iff)
  define mid where "mid = take h (drop r0 c)"
  have lm: "length mid = h" using assms(2) len by (simp add: mid_def)
  have "sum_list (map sum_list (map (patch c0 w (\<lambda>v. v + 1)) mid))
        = sum_list (map (\<lambda>r. sum_list r + real w) mid)"
  proof -
    have "\<And>r. r \<in> set mid \<Longrightarrow> sum_list (patch c0 w (\<lambda>v. v + 1) r) = sum_list r + real w"
      using rows assms(3) by (intro sum_list_patch_inc) (auto simp: mid_def dest!: in_set_takeD in_set_dropD)
    then show ?thesis by (simp add: comp_def cong: map_cong)
  qed
  also have "\<dots> = sum_list (map sum_list mid) + real (h * w)"
    by (simp add: sum_list_addf sum_list_triv lm)
  finally have m: "sum_list (map sum_list (map (patch c0 w (\<lambda>v. v + 1)) mid))
        = sum_list (map sum_list mid) + real (h * w)" .
  have "c = take r0 c @ mid @ drop (r0 + h) c"
    unfolding mid_def by (metis append_take_drop_id drop_drop add.commute)
  then have "array_sum c = sum_list (map sum_list (take r0 c)) + sum_list (map sum_list mid)
        + sum_list (map sum_list (drop (r0 + h) c))"
    unfolding array_sum_def by (metis map_append sum_list_append add.assoc)
  then show ?thesis
    using m by (simp add: array_sum_def patch_def [of r0] flip: mid_def)
qed

lemma slice_bounds_Range_inside:
  assumes "0 \<le> x" "0 \<le> L" "x + L \<le> int n"
  shows "slice_bounds n (Range x (x + L)) = (nat x, nat L)"
  using assms by (auto simp: slice_bound_nonneg min_def nat_add_distrib)

lemma ncols_is_shape: "is_shape R C c \<Longrightarrow> 0 < R \<Longrightarrow> ncols c = C"
  by (cases c) (auto simp: is_shape_def ncols_def)

lemma count_loop_sum:
  assumes "is_shape R C c" "0 < R" "0 \<le> L"
    and "\<forall>i \<in> set idx. i < length xl \<and> i < length yl
           \<and> 0 \<le> xl ! i \<and> xl ! i + L \<le> int R \<and> 0 \<le> yl ! i \<and> yl ! i + L \<le> int C"
  shows "\<exists>c'. count_loop L xl yl idx c = Inr c' \<and> is_shape R C c'
            \<and> array_sum c' = array_sum c + real (length idx * (nat L * nat L))"
  using assms
proof (induction idx arbitrary: c)
  case Nil
  then show ?case by simp
next
  case (Cons i idx)
  define c1 where "c1 = patch (nat (xl ! i)) (nat L) (patch (nat (yl ! i)) (nat L) (\<lambda>v. v + 1)) c"
  have i: "i < length xl" "i < length yl" "0 \<le> xl ! i" "xl ! i + L \<le> int R"
      "0 \<le> yl ! i" "yl ! i + L \<le> int C"
    using Cons.prems(4) by simp_all
  have step: "assign2 (+) c (Range (xl ! i) (xl ! i + L)) (Range (yl ! i) (yl ! i + L)) [[1]] = Inr c1"
  proof -
    have "nrows c = R" "ncols c = C"
      using Cons.prems(1,2) by (simp_all add: ncols_is_shape nrows_def is_shape_def)
    moreover have "slice_bounds R (Range (xl ! i) (xl ! i + L)) = (nat (xl ! i), nat L)"
      "slice_bounds C (Range (yl ! i) (yl ! i + L)) = (nat (yl ! i), nat L)"
      using i Cons.prems(3) by (simp_all only: slice_bounds_Range_inside)
    ultimately show ?thesis by (simp only: assign2_scalar c1_def fst_conv snd_conv)
  qed
  have sh: "is_shape R C c1" unfolding c1_def by (rule is_shape_patch [OF Cons.prems(1)])
  have sm: "array_sum c1 = array_sum c + real (nat L * nat L)"
    unfolding c1_def using i Cons.prems(3)
    by (intro array_sum_patch_inc [OF Cons.prems(1)]) auto
  from Cons.IH [OF sh Cons.prems(2,3)] Cons.prems(4)
  obtain c' where "count_loop L xl yl idx c1 = Inr c'" "is_shape R C c'"
    "array_sum c' = array_sum c1 + real (length idx * (nat L * nat L))" by auto
  then show ?case
    using step i sm by (simp add: item_def and_then_def algebra_simps)
qed


lemma np_binop_same_shape:
  assumes "is_shape h w A" "is_shape h w B"
  shows "np_binop f A B = Inr (map2 (map2 f) A B)"
proof (cases "h = 0")
  case True
  with assms show ?thesis
    by (simp add: is_shape_def np_binop_def nrows_def ncols_def broadcast_to_def and_then_def)
next
  case False
  then have "nrows A = h" "ncols A = w" "nrows B = h" "ncols B = w"
    using assms by (simp_all add: ncols_is_shape) (simp_all add: is_shape_def nrows_def)
  then show ?thesis
    by (simp add: np_binop_def broadcast_to_def and_then_def)
qed

lemma is_shape_map2:
  assumes "is_shape h w A" "is_shape h w B"
  shows "is_shape h w (map2 (map2 f) A B)"
  using assms by (auto simp: is_shape_def list_all_iff dest!: set_zip_leftD set_zip_rightD
      elim!: in_set_zipE)

lemma sum_list_map2_add:
  fixes xs ys :: "real list"
  shows "length xs = length ys \<Longrightarrow> sum_list (map2 (+) xs ys) = sum_list xs + sum_list ys"
  by (induction xs ys rule: list_induct2) simp_all

lemma array_sum_map2_add:
  assumes "is_shape h w A" "is_shape h w B"
  shows "array_sum (map2 (map2 (+)) A B) = array_sum A + array_sum B"
proof -
  have "length A = length B" using assms by (simp add: is_shape_def)
  moreover have "\<forall>r \<in> set A. length r = w" "\<forall>r \<in> set B. length r = w"
    using assms by (simp_all add: is_shape_def list_all_iff)
  ultimately show ?thesis
    by (induction A B rule: list_induct2) (simp_all add: array_sum_def sum_list_map2_add)
qed

lemma quadrants:
  assumes "is_shape (2 * n) (2 * n) c"
  shows "get2 c (Range 0 (int n)) (Range 0 (int n)) = map (take n) (take n c)"
    and "get2 c (Range 0 (int n)) (Range (int n) (2 * int n)) = map (drop n) (take n c)"
    and "get2 c (Range (int n) (2 * int n)) (Range 0 (int n)) = map (take n) (drop n c)"
    and "get2 c (Range (int n) (2 * int n)) (Range (int n) (2 * int n)) = map (drop n) (drop n c)"
proof -
  have len: "length c = 2 * n" and rows: "\<And>r. r \<in> set c \<Longrightarrow> length r = 2 * n"
    using assms by (auto simp: is_shape_def list_all_iff)
  have r: "\<And>r. r \<in> set c \<Longrightarrow> take_slice (Range (int n) (2 * int n)) r = drop n r"
    using rows by (simp add: take_slice_Range nat_mult_distrib)
  have c: "take_slice (Range (int n) (2 * int n)) c = drop n c"
    using len by (simp add: take_slice_Range nat_mult_distrib)
  show "get2 c (Range 0 (int n)) (Range 0 (int n)) = map (take n) (take n c)"
    by (simp add: get2_def take_slice_Range)
  show "get2 c (Range 0 (int n)) (Range (int n) (2 * int n)) = map (drop n) (take n c)"
    using r by (auto simp: get2_def take_slice_Range dest: in_set_takeD)
  show "get2 c (Range (int n) (2 * int n)) (Range 0 (int n)) = map (take n) (drop n c)"
    by (simp add: get2_def c) (simp add: take_slice_Range)
  show "get2 c (Range (int n) (2 * int n)) (Range (int n) (2 * int n)) = map (drop n) (drop n c)"
    using r by (auto simp: get2_def c dest: in_set_dropD)
qed

lemma quadrant_shapes:
  assumes "is_shape (2 * n) (2 * n) c"
  shows "is_shape n n (map (take n) (take n c))" "is_shape n n (map (drop n) (take n c))"
    "is_shape n n (map (take n) (drop n c))" "is_shape n n (map (drop n) (drop n c))"
  using assms by (auto simp: is_shape_def list_all_iff dest!: in_set_takeD in_set_dropD)

lemma fold_quadrants_eq:
  assumes "is_shape (2 * n) (2 * n) c"
  shows "fold_quadrants (int n) c =
     Inr (map2 (map2 (+)) (map2 (map2 (+)) (map2 (map2 (+)) (map (take n) (take n c))
       (map (drop n) (take n c))) (map (take n) (drop n c))) (map (drop n) (drop n c)))"
  using quadrant_shapes [OF assms]
  by (simp add: fold_quadrants_def quadrants [OF assms] np_binop_same_shape [where h = n and w = n]
      is_shape_map2 and_then_def)

lemma array_sum_split_cols:
  "array_sum c = array_sum (map (take n) c) + array_sum (map (drop n) c)"
proof (induction c)
  case Nil
  then show ?case by (simp add: array_sum_def)
next
  case (Cons r c)
  have "sum_list r = sum_list (take n r) + sum_list (drop n r)"
    by (metis append_take_drop_id sum_list_append)
  with Cons show ?case by (simp add: array_sum_def)
qed

lemma array_sum_split_rows:
  "array_sum c = array_sum (take n c) + array_sum (drop n c)"
  unfolding array_sum_def by (metis append_take_drop_id map_append sum_list_append)

lemma fold_quadrants_sum:
  assumes "is_shape (2 * n) (2 * n) c"
  shows "\<exists>f. fold_quadrants (int n) c = Inr f \<and> is_shape n n f \<and> array_sum f = array_sum c"
proof -
  note q = quadrant_shapes [OF assms]
  have "array_sum c = array_sum (map (take n) (take n c)) + array_sum (map (drop n) (take n c))
      + array_sum (map (take n) (drop n c)) + array_sum (map (drop n) (drop n c))"
    using array_sum_split_rows [of c n] array_sum_split_cols [of "take n c" n]
      array_sum_split_cols [of "drop n c" n] by simp
  then show ?thesis
    using q by (simp add: fold_quadrants_eq [OF assms] is_shape_map2
        array_sum_map2_add [where h = n and w = n])
qed


lemma trunc_div_nonneg: "0 \<le> a \<Longrightarrow> 0 < b \<Longrightarrow> trunc_div a b = a div b"
  by (cases "a = 0") (simp_all add: trunc_div_def)

lemma length_meshgrid_flat:
  "length (fst (meshgrid_flat mesh)) = length mesh * length mesh"
  "length (snd (meshgrid_flat mesh)) = length mesh * length mesh"
  by (simp_all add: meshgrid_flat_def length_concat comp_def sum_list_triv sum_list_replicate)

lemma geometry_divisible:
  assumes "0 < pitch" "pitch dvd N" "0 \<le> N"
  shows "geometry N pitch = Inr ((N div pitch) ^ 2,
           meshgrid_flat (map (\<lambda>k. int k * pitch) [0..<nat (N div pitch)]))"
  using assms by (simp add: geometry_def total_frame_def arange_def and_then_def
      trunc_div_nonneg dvd_neg_div)

text \<open>
  Claim C9. For a stride \<open>pitch > 0\<close> that divides \<open>N\<close> and a window size \<open>0 \<le> L \<le> N\<close>, the
  map \<open>counts\<close> is computed without an exception and the sum of its entries is
  \<open>total_frame * L\<^sup>2\<close>, where \<open>total_frame = (N div pitch)\<^sup>2\<close>. Neither mask nor pad enter.
\<close>

theorem counts_sum:
  assumes "0 < pitch" and "pitch dvd N" and "0 \<le> L" and "L \<le> N"
  shows "\<exists>c tf. counts N L pitch = Inr c \<and> total_frame N pitch = Inr tf
           \<and> tf = (N div pitch) ^ 2 \<and> array_sum c = real_of_int (tf * L ^ 2)"
proof -
  have N: "0 \<le> N" using assms(3,4) by simp
  define m where "m = nat (N div pitch)"
  define mesh where "mesh = map (\<lambda>k. int k * pitch) [0..<m]"
  define xl where "xl = fst (meshgrid_flat mesh)"
  define yl where "yl = snd (meshgrid_flat mesh)"
  define n where "n = nat N"
  have g: "geometry N pitch = Inr ((N div pitch) ^ 2, xl, yl)"
    using geometry_divisible [OF assms(1,2) N] by (simp add: xl_def yl_def mesh_def m_def)
  have tf: "total_frame N pitch = Inr ((N div pitch) ^ 2)"
    using assms(1) N by (simp add: total_frame_def trunc_div_nonneg)
  have ntf: "nat ((N div pitch) ^ 2) = m * m"
    using assms(1) N by (simp add: m_def power2_eq_square nat_mult_distrib pos_imp_zdiv_nonneg_iff)
  have len: "length xl = m * m" "length yl = m * m"
    using length_meshgrid_flat [of mesh] by (simp_all add: xl_def yl_def mesh_def)
  have coords: "\<forall>v \<in> set xl \<union> set yl. 0 \<le> v \<and> v < N"
    by (rule geometry_coordinates [OF g N])
  have z: "zeros2 (2 * N) (2 * N) = Inr (replicate (2 * n) (replicate (2 * n) (0::real)))"
    using N by (simp add: zeros2_def n_def nat_mult_distrib)
  define c0 where "c0 = replicate (2 * n) (replicate (2 * n) (0::real))"
  have sh0: "is_shape (2 * n) (2 * n) c0" by (simp add: c0_def is_shape_def list_all_iff)
  have s0: "array_sum c0 = 0" by (simp add: c0_def array_sum_def sum_list_triv sum_list_replicate)
  have "\<exists>c. count_loop L xl yl [0..<m * m] c0 = Inr c \<and> is_shape (2 * n) (2 * n) c
          \<and> array_sum c = real (m * m * (nat L * nat L))"
  proof (cases "m * m = 0")
    case True
    then show ?thesis using sh0 s0 by simp
  next
    case False
    then have "0 < m" by simp
    then have "0 < N" using assms(1) N by (cases "N = 0") (simp_all add: m_def)
    then have npos: "0 < 2 * n" by (simp add: n_def)
    have "\<forall>i \<in> set [0..<m * m]. i < length xl \<and> i < length yl
           \<and> 0 \<le> xl ! i \<and> xl ! i + L \<le> int (2 * n) \<and> 0 \<le> yl ! i \<and> yl ! i + L \<le> int (2 * n)"
    proof
      fix i assume "i \<in> set [0..<m * m]"
      then have i: "i < length xl" "i < length yl" using len by simp_all
      then have "xl ! i \<in> set xl" "yl ! i \<in> set yl" by simp_all
      with coords have "0 \<le> xl ! i" "xl ! i < N" "0 \<le> yl ! i" "yl ! i < N" by auto
      with i assms(4) N show "i < length xl \<and> i < length yl
           \<and> 0 \<le> xl ! i \<and> xl ! i + L \<le> int (2 * n) \<and> 0 \<le> yl ! i \<and> yl ! i + L \<le> int (2 * n)"
        by (simp add: n_def)
    qed
    from count_loop_sum [OF sh0 npos assms(3) this] s0 show ?thesis by simp
  qed
  then obtain c where c: "count_loop L xl yl [0..<m * m] c0 = Inr c" "is_shape (2 * n) (2 * n) c"
    "array_sum c = real (m * m * (nat L * nat L))" by blast
  from fold_quadrants_sum [OF c(2)] obtain f where
    f: "fold_quadrants (int n) c = Inr f" "array_sum f = array_sum c" by blast
  have "counts N L pitch = Inr f"
    using g z c(1) f(1) N by (simp add: counts_def and_then_def ntf c0_def n_def)
  moreover have "real (m * m * (nat L * nat L)) = real_of_int ((N div pitch) ^ 2 * L ^ 2)"
    using assms(1,3) N by (simp add: m_def power2_eq_square pos_imp_zdiv_nonneg_iff)
  ultimately show ?thesis using tf f(2) c(3) by simp
qed

theorem counts_sum_witness:
  "(0::int) < 2 \<and> (2::int) dvd 4 \<and> (0::int) \<le> 3 \<and> (3::int) \<le> 4
   \<and> counts 4 3 2 = Inr [[4, 2, 4, 2], [2, 1, 2, 1], [4, 2, 4, 2], [2, 1, 2, 1]]
   \<and> total_frame 4 2 = Inr 4
   \<and> array_sum [[4, 2, 4, 2], [2, 1, 2, 1], [4, 2, 4, 2], [2, 1, 2, 1]] = real_of_int (4 * 3 ^ 2)"
proof -
  have c: "counts 4 3 2 = Inr [[4, 2, 4, 2], [2, 1, 2, 1], [4, 2, 4, 2], [2, 1, 2, 1]]"
    by code_simp
  have t: "total_frame 4 2 = Inr 4"
    by (simp add: total_frame_def trunc_div_def)
  have "(0::int) < 2" and "(2::int) dvd 4" and "(0::int) \<le> 3" and "(3::int) \<le> 4" by simp_all
  from counts_sum [OF this] c t show ?thesis by simp
qed

subsection \<open>Entries of the energy-normalization map\<close>

lemma nth_patch2:
  assumes "is_shape R C c" "i < R" "j < C"
  shows "patch r0 h (patch c0 w g) c ! i ! j
         = (if r0 \<le> i \<and> i < r0 + h \<and> c0 \<le> j \<and> j < c0 + w then g (c ! i ! j) else c ! i ! j)"
proof -
  have "length c = R" "length (c ! i) = C"
    using assms(1,2) by (auto simp: is_shape_def list_all_length)
  then show ?thesis using assms(2,3) by (simp add: nth_patch)
qed

lemma count_loop_entries:
  assumes "is_shape R C c" "0 < R" "0 \<le> L"
    and "\<forall>i \<in> set idx. i < length xl \<and> i < length yl
           \<and> 0 \<le> xl ! i \<and> xl ! i + L \<le> int R \<and> 0 \<le> yl ! i \<and> yl ! i + L \<le> int C"
  shows "\<exists>c'. count_loop L xl yl idx c = Inr c' \<and> is_shape R C c'
            \<and> (\<forall>i<R. \<forall>j<C. c ! i ! j \<le> c' ! i ! j)
            \<and> (\<forall>k \<in> set idx. \<forall>i<R. \<forall>j<C.
                  xl ! k \<le> int i \<and> int i < xl ! k + L \<and> yl ! k \<le> int j \<and> int j < yl ! k + L
                  \<longrightarrow> c ! i ! j + 1 \<le> c' ! i ! j)"
  using assms
proof (induction idx arbitrary: c)
  case Nil
  then show ?case by simp
next
  case (Cons k idx)
  define c1 where "c1 = patch (nat (xl ! k)) (nat L) (patch (nat (yl ! k)) (nat L) (\<lambda>v. v + 1)) c"
  have k: "k < length xl" "k < length yl" "0 \<le> xl ! k" "xl ! k + L \<le> int R"
      "0 \<le> yl ! k" "yl ! k + L \<le> int C"
    using Cons.prems(4) by simp_all
  have step: "assign2 (+) c (Range (xl ! k) (xl ! k + L)) (Range (yl ! k) (yl ! k + L)) [[1]] = Inr c1"
  proof -
    have "nrows c = R" "ncols c = C"
      using Cons.prems(1,2) by (simp_all add: ncols_is_shape nrows_def is_shape_def)
    moreover have "slice_bounds R (Range (xl ! k) (xl ! k + L)) = (nat (xl ! k), nat L)"
      "slice_bounds C (Range (yl ! k) (yl ! k + L)) = (nat (yl ! k), nat L)"
      using k Cons.prems(3) by (simp_all only: slice_bounds_Range_inside)
    ultimately show ?thesis by (simp only: assign2_scalar c1_def fst_conv snd_conv)
  qed
  have sh: "is_shape R C c1" unfolding c1_def by (rule is_shape_patch [OF Cons.prems(1)])
  have e1: "\<And>i j. i < R \<Longrightarrow> j < C \<Longrightarrow> c1 ! i ! j =
      (if xl ! k \<le> int i \<and> int i < xl ! k + L \<and> yl ! k \<le> int j \<and> int j < yl ! k + L
       then c ! i ! j + 1 else c ! i ! j)"
    using k Cons.prems(3) unfolding c1_def
    by (subst nth_patch2 [OF Cons.prems(1)]) (auto simp: nat_le_iff)
  from Cons.IH [OF sh Cons.prems(2,3)] Cons.prems(4)
  obtain c' where c': "count_loop L xl yl idx c1 = Inr c'" "is_shape R C c'"
    "\<forall>i<R. \<forall>j<C. c1 ! i ! j \<le> c' ! i ! j"
    "\<forall>k \<in> set idx. \<forall>i<R. \<forall>j<C.
        xl ! k \<le> int i \<and> int i < xl ! k + L \<and> yl ! k \<le> int j \<and> int j < yl ! k + L
        \<longrightarrow> c1 ! i ! j + 1 \<le> c' ! i ! j" by auto
  have run: "count_loop L xl yl (k # idx) c = Inr c'"
    using step k c'(1) by (simp add: item_def and_then_def)
  have mono: "\<forall>i<R. \<forall>j<C. c ! i ! j \<le> c' ! i ! j"
  proof (intro allI impI)
    fix i j assume "i < R" "j < C"
    then have "c ! i ! j \<le> c1 ! i ! j" by (simp add: e1)
    also have "\<dots> \<le> c' ! i ! j" using c'(3) \<open>i < R\<close> \<open>j < C\<close> by simp
    finally show "c ! i ! j \<le> c' ! i ! j" .
  qed
  have cover: "\<forall>k' \<in> set (k # idx). \<forall>i<R. \<forall>j<C.
        xl ! k' \<le> int i \<and> int i < xl ! k' + L \<and> yl ! k' \<le> int j \<and> int j < yl ! k' + L
        \<longrightarrow> c ! i ! j + 1 \<le> c' ! i ! j"
  proof (intro ballI allI impI)
    fix k' i j
    assume k': "k' \<in> set (k # idx)" and ij: "i < R" "j < C"
      and in_w: "xl ! k' \<le> int i \<and> int i < xl ! k' + L \<and> yl ! k' \<le> int j \<and> int j < yl ! k' + L"
    show "c ! i ! j + 1 \<le> c' ! i ! j"
    proof (cases "k' = k")
      case True
      then have "c1 ! i ! j = c ! i ! j + 1" using in_w ij by (simp add: e1)
      then show ?thesis using c'(3) ij by (metis)
    next
      case False
      then have "k' \<in> set idx" using k' by simp
      then have "c1 ! i ! j + 1 \<le> c' ! i ! j" using c'(4) ij in_w by blast
      moreover have "c ! i ! j \<le> c1 ! i ! j" using ij by (simp add: e1)
      ultimately show ?thesis by simp
    qed
  qed
  show ?case using run c'(2) mono cover by blast
qed

lemma nth_map2_add:
  assumes "is_shape h w A" "is_shape h w B" "p < h" "q < w"
  shows "map2 (map2 (+)) A B ! p ! q = A ! p ! q + B ! p ! q"
proof -
  have "length A = h" "length B = h" "length (A ! p) = w" "length (B ! p) = w"
    using assms by (auto simp: is_shape_def list_all_length)
  then show ?thesis using assms(3,4) by simp
qed

lemma fold_quadrants_entries:
  assumes "is_shape (2 * n) (2 * n) c"
  shows "\<exists>f. fold_quadrants (int n) c = Inr f \<and> is_shape n n f
           \<and> (\<forall>p<n. \<forall>q<n. f ! p ! q
                 = c ! p ! q + c ! p ! (q + n) + c ! (p + n) ! q + c ! (p + n) ! (q + n))"
proof -
  note q = quadrant_shapes [OF assms]
  have len: "length c = 2 * n" and rows: "\<And>i. i < 2 * n \<Longrightarrow> length (c ! i) = 2 * n"
    using assms by (auto simp: is_shape_def list_all_length)
  have "\<And>p q. p < n \<Longrightarrow> q < n \<Longrightarrow>
      map (take n) (take n c) ! p ! q = c ! p ! q
      \<and> map (drop n) (take n c) ! p ! q = c ! p ! (q + n)
      \<and> map (take n) (drop n c) ! p ! q = c ! (p + n) ! q
      \<and> map (drop n) (drop n c) ! p ! q = c ! (p + n) ! (q + n)"
    using len rows by (simp add: add.commute)
  then show ?thesis
    using q by (simp add: fold_quadrants_eq [OF assms] is_shape_map2
        nth_map2_add [where h = n and w = n])
qed

lemma zip_replicate_right:
  "zip xs (replicate (length xs) y) = map (\<lambda>x. (x, y)) xs"
  by (induction xs) simp_all

lemma zip_meshgrid_aux:
  "zip (concat (replicate (length ys) mesh)) (concat (map (replicate (length mesh)) ys))
     = concat (map (\<lambda>y. map (\<lambda>x. (x, y)) mesh) ys)"
  by (induction ys) (simp_all add: zip_replicate_right)

lemma zip_meshgrid:
  "zip (fst (meshgrid_flat mesh)) (snd (meshgrid_flat mesh))
     = concat (map (\<lambda>y. map (\<lambda>x. (x, y)) mesh) mesh)"
  by (simp add: meshgrid_flat_def zip_meshgrid_aux)

lemma meshgrid_window_exists:
  assumes "x \<in> set mesh" "y \<in> set mesh"
  shows "\<exists>k < length mesh * length mesh.
           fst (meshgrid_flat mesh) ! k = x \<and> snd (meshgrid_flat mesh) ! k = y"
proof -
  have "(x, y) \<in> set (zip (fst (meshgrid_flat mesh)) (snd (meshgrid_flat mesh)))"
    using assms by (auto simp: zip_meshgrid)
  then show ?thesis
    by (auto simp: in_set_zip length_meshgrid_flat)
qed

lemma mesh_covers:
  assumes "0 < pitch" "pitch dvd N" "0 \<le> p" "p < N"
  shows "(p div pitch) * pitch \<in> set (map (\<lambda>k. int k * pitch) [0..<nat (N div pitch)])"
    and "(p div pitch) * pitch \<le> p" and "p < (p div pitch) * pitch + pitch"
proof -
  have N: "N = (N div pitch) * pitch" using assms(2) by simp
  have "p div pitch < N div pitch"
  proof (rule ccontr)
    assume "\<not> p div pitch < N div pitch"
    then have "N div pitch \<le> p div pitch" by simp
    then have "(N div pitch) * pitch \<le> (p div pitch) * pitch"
      using assms(1) by (intro mult_right_mono) simp_all
    also have "\<dots> \<le> p"
    proof -
      have "p = (p div pitch) * pitch + p mod pitch" by simp
      moreover have "0 \<le> p mod pitch" using assms(1) by simp
      ultimately show ?thesis by linarith
    qed
    finally show False using N assms(4) by simp
  qed
  moreover have "0 \<le> p div pitch" using assms by (simp add: pos_imp_zdiv_nonneg_iff)
  ultimately have k: "nat (p div pitch) < nat (N div pitch)" "int (nat (p div pitch)) = p div pitch"
    by simp_all
  have "int (nat (p div pitch)) * pitch \<in> (\<lambda>k. int k * pitch) ` {0..<nat (N div pitch)}"
    using k(1) by (intro imageI) simp
  then show "(p div pitch) * pitch \<in> set (map (\<lambda>k. int k * pitch) [0..<nat (N div pitch)])"
    using k(2) by simp
  have "p = (p div pitch) * pitch + p mod pitch" by simp
  moreover have "0 \<le> p mod pitch" "p mod pitch < pitch" using assms(1) by simp_all
  ultimately show "(p div pitch) * pitch \<le> p" "p < (p div pitch) * pitch + pitch" by linarith+
qed


lemma all_entries_nth:
  assumes "is_shape h w A" "\<And>p q. p < h \<Longrightarrow> q < w \<Longrightarrow> P (A ! p ! q)"
  shows "all_entries P A"
  using assms by (auto simp: all_entries_def is_shape_def list_all_length)

text \<open>
  Claim C4, as amended. The claim asks that every entry of \<open>counts\<close> is at least 1 whenever
  \<open>pitch\<close> divides \<open>N\<close> and \<open>L \<le> N\<close>. That needs the windows to reach their neighbours:
  for a stride \<open>pitch > 0\<close> that divides \<open>N\<close> and \<open>pitch \<le> L \<le> N\<close>, the map \<open>counts\<close> is
  computed without an exception, is \<open>N \<times> N\<close>, and every entry is at least 1.
\<close>

theorem counts_entries_ge_1:
  assumes "0 < pitch" and "pitch dvd N" and "pitch \<le> L" and "L \<le> N"
  shows "\<exists>c. counts N L pitch = Inr c \<and> is_shape (nat N) (nat N) c
           \<and> all_entries (\<lambda>v. 1 \<le> v) c"
proof -
  have N: "0 \<le> N" and L: "0 \<le> L" and Npos: "0 < N" using assms(1,3,4) by simp_all
  define m where "m = nat (N div pitch)"
  define mesh where "mesh = map (\<lambda>k. int k * pitch) [0..<m]"
  define xl where "xl = fst (meshgrid_flat mesh)"
  define yl where "yl = snd (meshgrid_flat mesh)"
  define n where "n = nat N"
  have g: "geometry N pitch = Inr ((N div pitch) ^ 2, xl, yl)"
    using geometry_divisible [OF assms(1,2) N] by (simp add: xl_def yl_def mesh_def m_def)
  have ntf: "nat ((N div pitch) ^ 2) = m * m"
    using assms(1) N by (simp add: m_def power2_eq_square nat_mult_distrib pos_imp_zdiv_nonneg_iff)
  have len: "length xl = m * m" "length yl = m * m" and lm: "length mesh = m"
    using length_meshgrid_flat [of mesh] by (simp_all add: xl_def yl_def mesh_def)
  have coords: "\<forall>v \<in> set xl \<union> set yl. 0 \<le> v \<and> v < N"
    by (rule geometry_coordinates [OF g N])
  have z: "zeros2 (2 * N) (2 * N) = Inr (replicate (2 * n) (replicate (2 * n) (0::real)))"
    using N by (simp add: zeros2_def n_def nat_mult_distrib)
  define c0 where "c0 = replicate (2 * n) (replicate (2 * n) (0::real))"
  have sh0: "is_shape (2 * n) (2 * n) c0" by (simp add: c0_def is_shape_def list_all_iff)
  have e0: "\<And>i j. i < 2 * n \<Longrightarrow> j < 2 * n \<Longrightarrow> c0 ! i ! j = 0" by (simp add: c0_def)
  have npos: "0 < 2 * n" using Npos by (simp add: n_def)
  have inb: "\<forall>i \<in> set [0..<m * m]. i < length xl \<and> i < length yl
           \<and> 0 \<le> xl ! i \<and> xl ! i + L \<le> int (2 * n) \<and> 0 \<le> yl ! i \<and> yl ! i + L \<le> int (2 * n)"
  proof
    fix i assume "i \<in> set [0..<m * m]"
    then have i: "i < length xl" "i < length yl" using len by simp_all
    then have "xl ! i \<in> set xl" "yl ! i \<in> set yl" by simp_all
    with coords have "0 \<le> xl ! i" "xl ! i < N" "0 \<le> yl ! i" "yl ! i < N" by auto
    with i assms(4) N show "i < length xl \<and> i < length yl
           \<and> 0 \<le> xl ! i \<and> xl ! i + L \<le> int (2 * n) \<and> 0 \<le> yl ! i \<and> yl ! i + L \<le> int (2 * n)"
      by (simp add: n_def)
  qed
  from count_loop_entries [OF sh0 npos L inb]
  obtain c where c: "count_loop L xl yl [0..<m * m] c0 = Inr c" "is_shape (2 * n) (2 * n) c"
    and mono: "\<And>i j. i < 2 * n \<Longrightarrow> j < 2 * n \<Longrightarrow> c0 ! i ! j \<le> c ! i ! j"
    and cover: "\<And>k i j. k < m * m \<Longrightarrow> i < 2 * n \<Longrightarrow> j < 2 * n \<Longrightarrow>
        xl ! k \<le> int i \<Longrightarrow> int i < xl ! k + L \<Longrightarrow> yl ! k \<le> int j \<Longrightarrow> int j < yl ! k + L
        \<Longrightarrow> c0 ! i ! j + 1 \<le> c ! i ! j"
    by (auto simp: Ball_def)
  from fold_quadrants_entries [OF c(2)] obtain f where
    f: "fold_quadrants (int n) c = Inr f" "is_shape n n f"
    and fe: "\<And>p q. p < n \<Longrightarrow> q < n \<Longrightarrow>
       f ! p ! q = c ! p ! q + c ! p ! (q + n) + c ! (p + n) ! q + c ! (p + n) ! (q + n)"
    by blast
  have run: "counts N L pitch = Inr f"
    using g z c(1) f(1) N by (simp add: counts_def and_then_def ntf c0_def n_def)
  have "1 \<le> f ! p ! q" if pq: "p < n" "q < n" for p q
  proof -
    have p: "0 \<le> int p" "int p < N" and q: "0 \<le> int q" "int q < N"
      using pq by (simp_all add: n_def)
    define x where "x = (int p div pitch) * pitch"
    define y where "y = (int q div pitch) * pitch"
    have x: "x \<in> set mesh" "x \<le> int p" "int p < x + pitch"
      using mesh_covers [OF assms(1,2) p] by (simp_all add: x_def mesh_def m_def)
    have y: "y \<in> set mesh" "y \<le> int q" "int q < y + pitch"
      using mesh_covers [OF assms(1,2) q] by (simp_all add: y_def mesh_def m_def)
    from meshgrid_window_exists [OF x(1) y(1)] obtain k where
      k: "k < m * m" "xl ! k = x" "yl ! k = y" by (auto simp: xl_def yl_def lm)
    have "c0 ! p ! q + 1 \<le> c ! p ! q"
      using k x y pq assms(3) by (intro cover [of k]) simp_all
    then have "1 \<le> c ! p ! q" using pq by (simp add: e0)
    moreover have "0 \<le> c ! p ! (q + n)" "0 \<le> c ! (p + n) ! q" "0 \<le> c ! (p + n) ! (q + n)"
      using mono [of p "q + n"] mono [of "p + n" q] mono [of "p + n" "q + n"] pq
      by (simp_all add: e0)
    ultimately show ?thesis using pq by (simp add: fe)
  qed
  then have "all_entries (\<lambda>v. 1 \<le> v) f" by (intro all_entries_nth [OF f(2)])
  then show ?thesis using run f(2) by (simp add: n_def)
qed

theorem counts_entries_ge_1_witness:
  "(0::int) < 2 \<and> (2::int) dvd 4 \<and> (2::int) \<le> 2 \<and> (2::int) \<le> 4
   \<and> counts 4 2 2 = Inr [[1, 1, 1, 1], [1, 1, 1, 1], [1, 1, 1, 1], [1, 1, 1, 1]]
   \<and> all_entries (\<lambda>v. 1 \<le> v) [[1, 1, 1, 1], [1, 1, 1, 1], [1, 1, 1, 1], [1, 1, 1, 1 :: real]]"
proof -
  have c: "counts 4 2 2 = Inr [[1, 1, 1, 1], [1, 1, 1, 1], [1, 1, 1, 1], [1, 1, 1, 1]]"
    by code_simp
  have "(0::int) < 2" and "(2::int) dvd 4" and "(2::int) \<le> 2" and "(2::int) \<le> 4" by simp_all
  from counts_entries_ge_1 [OF this] c show ?thesis by simp
qed

text \<open>
  Claim C4 as stated fails when the window is narrower than the stride: with \<open>N = 4\<close>,
  \<open>L = 1\<close> and \<open>pitch = 2\<close> (\<open>pitch\<close> divides \<open>N\<close>, \<open>L \<le> N\<close>) the four windows cover four
  pixels and the other twelve entries of \<open>counts\<close> are 0.
\<close>

theorem counts_entries_counterexample:
  "(2::int) dvd 4 \<and> (1::int) \<le> 4
   \<and> counts 4 1 2 = Inr [[1, 0, 1, 0], [0, 0, 0, 0], [1, 0, 1, 0], [0, 0, 0, 0]]
   \<and> \<not> all_entries (\<lambda>v. 1 \<le> v) [[1, 0, 1, 0], [0, 0, 0, 0], [1, 0, 1, 0], [0, 0, 0, 0 :: real]]"
proof -
  have "counts 4 1 2 = Inr [[1, 0, 1, 0], [0, 0, 0, 0], [1, 0, 1, 0], [0, 0, 0, 0]]"
    by code_simp
  then show ?thesis by (simp add: all_entries_def)
qed

subsection \<open>Scatter-accumulation of zero blocks\<close>

lemma take_slice_replicate:
  "take_slice s (replicate n v) = replicate (snd (slice_bounds n s)) v"
proof -
  obtain lo len where b: "slice_bounds n s = (lo, len)" by (cases "slice_bounds n s")
  then have "lo + len \<le> n" by (rule slice_bounds_le)
  then show ?thesis using b by (simp add: take_slice_def min_def)
qed

lemma get2_zeros:
  "get2 (replicate a (replicate b z)) s t
     = replicate (snd (slice_bounds a s)) (replicate (snd (slice_bounds b t)) z)"
  by (simp add: get2_def take_slice_replicate)

lemma patch_id: "(\<And>x. g x = x) \<Longrightarrow> patch a h g xs = xs"
proof -
  assume "\<And>x. g x = x"
  then have "map g (take h (drop a xs)) = take h (drop a xs)" by (simp add: map_idI)
  moreover have "take a xs @ take h (drop a xs) @ drop (a + h) xs = xs"
    by (metis append_take_drop_id drop_drop add.commute)
  ultimately show ?thesis by (simp add: patch_def)
qed

lemma assign2_add_zeros:
  fixes A :: "complex array2"
  assumes "snd (slice_bounds (nrows A) s) = h" "snd (slice_bounds (ncols A) t) = w" "0 < h \<or> w = 0"
  shows "assign2 (+) A s t (replicate h (replicate w 0)) = Inr A"
proof -
  obtain r0 c0 where b: "slice_bounds (nrows A) s = (r0, h)" "slice_bounds (ncols A) t = (c0, w)"
    using assms(1,2) by (metis prod.collapse)
  have "nrows (replicate h (replicate w (0::complex))) = h" by (simp add: nrows_def)
  moreover have "ncols (replicate h (replicate w (0::complex))) = w"
    using assms(3) by (cases h) (auto simp: ncols_def)
  ultimately have bc: "broadcast_to h w (replicate h (replicate w (0::complex)))
      = Inr (replicate h (replicate w 0))"
    by (rule broadcast_to_same)
  have "r0 + h \<le> nrows A" using b(1) by (rule slice_bounds_le)
  then have "length (take h (drop r0 A)) \<le> h" by simp
  then have "map2 (put_row (+) c0 w) (take h (drop r0 A)) (replicate h (replicate w 0))
      = map (\<lambda>row. put_row (+) c0 w row (replicate w 0)) (take h (drop r0 A))"
    by (rule map2_replicate)
  also have "\<dots> = take h (drop r0 A)"
    by (simp add: put_row_replicate patch_id map_idI)
  finally have "take r0 A @ map2 (put_row (+) c0 w) (take h (drop r0 A)) (replicate h (replicate w 0))
      @ drop (r0 + h) A = A"
    by (metis append_take_drop_id drop_drop add.commute)
  then show ?thesis using b bc by (simp add: assign2_def and_then_def)
qed

lemma assign2_add_zero_block:
  fixes A :: "complex array2"
  assumes "snd (slice_bounds (nrows A) s) = snd (slice_bounds a s')"
    and "snd (slice_bounds (ncols A) t) = snd (slice_bounds b t')"
    and "0 < snd (slice_bounds a s') \<or> snd (slice_bounds b t') = 0"
  shows "assign2 (+) A s t (get2 (replicate a (replicate b 0)) s' t') = Inr A"
  unfolding get2_zeros using assms by (rule assign2_add_zeros)

lemma accumulate_window_zeros_nat:
  fixes G :: "complex array2"
  assumes G: "is_shape n n G" and L: "l \<le> n" and x: "a < n" and y: "b < n"
  shows "accumulate_window (int n) (int l) G (int a) (int b) (replicate l (replicate l 0)) = Inr G"
proof -
  have nr: "nrows G = n" using G by (simp add: nrows_def is_shape_def)
  have nc: "ncols G = n" using G x by (intro ncols_is_shape [OF G]) simp
  note simps = nr nc slice_bound_def
  consider (direct) "\<not> int a > int n - int l" "\<not> int b > int n - int l"
    | (cross_x) "int a > int n - int l" "\<not> int b > int n - int l"
    | (cross_y) "\<not> int a > int n - int l" "int b > int n - int l"
    | (cross_xy) "int a > int n - int l" "int b > int n - int l" by blast
  then show ?thesis
  proof cases
    case direct
    have "assign2 (+) G (Range (int a) (int a + int l)) (Range (int b) (int b + int l))
        (get2 (replicate l (replicate l 0)) All All) = Inr G"
      using direct L x y by (intro assign2_add_zero_block) (auto simp: simps)
    then show ?thesis using direct by (simp add: accumulate_window_def)
  next
    case cross_x
    have "assign2 (+) G (Range (int a) (int n)) (Range (int b) (int b + int l))
        (get2 (replicate l (replicate l 0)) (Range 0 (int n - int a)) All) = Inr G"
      using cross_x L x y by (intro assign2_add_zero_block) (auto simp: simps)
    moreover have "assign2 (+) G (Range 0 (int l + int a - int n)) (Range (int b) (int b + int l))
        (get2 (replicate l (replicate l 0)) (From (int n - int a)) All) = Inr G"
      using cross_x L x y by (intro assign2_add_zero_block) (auto simp: simps)
    ultimately show ?thesis using cross_x by (simp add: accumulate_window_def and_then_def)
  next
    case cross_y
    have "assign2 (+) G (Range (int a) (int a + int l)) (Range (int b) (int n))
        (get2 (replicate l (replicate l 0)) All (Range 0 (int n - int b))) = Inr G"
      using cross_y L x y by (intro assign2_add_zero_block) (auto simp: simps)
    moreover have "assign2 (+) G (Range (int a) (int a + int l)) (Range 0 (int l + int b - int n))
        (get2 (replicate l (replicate l 0)) All (From (int n - int b))) = Inr G"
      using cross_y L x y by (intro assign2_add_zero_block) (auto simp: simps)
    ultimately show ?thesis using cross_y by (simp add: accumulate_window_def and_then_def)
  next
    case cross_xy
    have "assign2 (+) G (Range (int a) (int n)) (Range (int b) (int n))
        (get2 (replicate l (replicate l 0)) (Range 0 (int n - int a)) (Range 0 (int n - int b))) = Inr G"
      using cross_xy L x y by (intro assign2_add_zero_block) (auto simp: simps)
    moreover have "assign2 (+) G (Range 0 (int l + int a - int n)) (Range 0 (int l + int b - int n))
        (get2 (replicate l (replicate l 0)) (Range (int n - int a) (int n)) (From (int n - int b))) = Inr G"
      using cross_xy L x y by (intro assign2_add_zero_block) (auto simp: simps)
    moreover have "assign2 (+) G (Range (int a) (int n)) (Range 0 (int l + int b - int n))
        (get2 (replicate l (replicate l 0)) (Range 0 (int n - int a)) (From (int n - int b))) = Inr G"
      using cross_xy L x y by (intro assign2_add_zero_block) (auto simp: simps)
    moreover have "assign2 (+) G (Range 0 (int l + int a - int n)) (Range (int b) (int n))
        (get2 (replicate l (replicate l 0)) (From (int n - int a)) (Range 0 (int n - int b))) = Inr G"
      using cross_xy L x y by (intro assign2_add_zero_block) (auto simp: simps)
    ultimately show ?thesis using cross_xy by (simp add: accumulate_window_def and_then_def)
  qed
qed

lemma accumulate_window_zeros:
  fixes G :: "complex array2"
  assumes G: "is_shape (nat N) (nat N) G"
    and L: "0 \<le> L" "L \<le> N" and x: "0 \<le> x" "x < N" and y: "0 \<le> y" "y < N"
  shows "accumulate_window N L G x y (replicate (nat L) (replicate (nat L) 0)) = Inr G"
  using accumulate_window_zeros_nat [of "nat N" G "nat L" "nat x" "nat y"] assms by simp

lemma floor_le_ceil_div:
  fixes N pitch :: int
  assumes "0 < pitch"
  shows "N div pitch \<le> - ((- N) div pitch)"
proof -
  have "(N div pitch) * pitch \<le> N"
  proof -
    have "N = (N div pitch) * pitch + N mod pitch" by simp
    moreover have "0 \<le> N mod pitch" using assms by simp
    ultimately show ?thesis by linarith
  qed
  moreover have "((- N) div pitch) * pitch \<le> - N"
  proof -
    have "- N = ((- N) div pitch) * pitch + (- N) mod pitch" by simp
    moreover have "0 \<le> (- N) mod pitch" using assms by simp
    ultimately show ?thesis by linarith
  qed
  ultimately have "(N div pitch + (- N) div pitch) * pitch \<le> 0" by (simp add: algebra_simps)
  then have "N div pitch + (- N) div pitch \<le> 0"
    using assms by (simp add: mult_le_0_iff)
  then show ?thesis by simp
qed

lemma geometry_frames:
  assumes "geometry N pitch = Inr (tf, xl, yl)" "0 < pitch" "0 \<le> N"
  shows "nat tf \<le> length xl" and "length yl = length xl"
proof -
  define m where "m = nat (- ((- N) div pitch))"
  have tf: "tf = (N div pitch) ^ 2"
    and xy: "(xl, yl) = meshgrid_flat (map (\<lambda>k. int k * pitch) [0..<m])"
    using assms by (auto simp: geometry_def total_frame_def arange_def and_then_def
        trunc_div_nonneg m_def split: if_splits)
  have len: "length xl = m * m" "length yl = m * m"
    using length_meshgrid_flat [of "map (\<lambda>k. int k * pitch) [0..<m]"] xy
    by (metis fst_conv length_map length_upt diff_zero, metis snd_conv length_map length_upt diff_zero)
  have "nat (N div pitch) \<le> m"
    unfolding m_def using floor_le_ceil_div [OF assms(2), of N] by (rule nat_mono)
  then have "nat (N div pitch) * nat (N div pitch) \<le> m * m" by (simp add: mult_le_mono)
  moreover have "nat tf = nat (N div pitch) * nat (N div pitch)"
    using assms(2,3) by (simp add: tf power2_eq_square nat_mult_distrib pos_imp_zdiv_nonneg_iff)
  ultimately show "nat tf \<le> length xl" using len by simp
  show "length yl = length xl" using len by simp
qed

lemma accumulate_loop_zeros:
  fixes G :: "complex array2"
  assumes "is_shape (nat N) (nat N) G" "0 \<le> L" "L \<le> N"
    and "\<forall>i \<in> set idx. i < length xl \<and> i < length yl \<and> i < length gradient_tensor
          \<and> 0 \<le> xl ! i \<and> xl ! i < N \<and> 0 \<le> yl ! i \<and> yl ! i < N
          \<and> gradient_tensor ! i = replicate (nat L) (replicate (nat L) 0)"
  shows "accumulate_loop N L xl yl gradient_tensor idx G = Inr G"
  using assms(4)
proof (induction idx)
  case Nil
  then show ?case by simp
next
  case (Cons i idx)
  then show ?case
    using accumulate_window_zeros [OF assms(1,2,3), of "xl ! i" "yl ! i"]
    by (simp add: item_def and_then_def)
qed

lemma np_divide_zeros:
  assumes "is_shape h w cnt" "all_entries (\<lambda>v. 1 \<le> v) cnt"
  shows "np_divide (replicate h (replicate w 0)) cnt = Inr (replicate h (replicate w 0))"
proof -
  have z: "is_shape h w (replicate h (replicate w (0::complex)))"
    by (simp add: is_shape_def list_all_iff)
  have len: "length cnt = h" and rows: "\<And>r. r \<in> set cnt \<Longrightarrow> length r = w"
    and pos: "\<And>r v. r \<in> set cnt \<Longrightarrow> v \<in> set r \<Longrightarrow> 1 \<le> v"
    using assms by (auto simp: is_shape_def all_entries_def list_all_iff)
  define P where "P = map2 (map2 Pair) (replicate h (replicate w (0::complex))) cnt"
  have P: "P = map (map (Pair 0)) cnt"
  proof -
    have "map2 (map2 Pair) (replicate h (replicate w (0::complex))) cnt
        = map (\<lambda>r. map2 Pair (replicate w 0) r) cnt"
      using len by (induction cnt arbitrary: h) auto
    also have "\<dots> = map (map (Pair 0)) cnt"
    proof (intro map_cong refl)
      fix r assume "r \<in> set cnt"
      then have "length r = w" by (rule rows)
      then show "map2 Pair (replicate w (0::complex)) r = map (Pair 0) r"
        by (induction r arbitrary: w) auto
    qed
    finally show ?thesis by (simp add: P_def)
  qed
  have nz: "\<not> list_ex (list_ex (\<lambda>(a, b). b = 0)) P"
    using pos by (fastforce simp: P list_ex_iff)
  have val: "map (map (\<lambda>(a, b). a / complex_of_real b)) P = replicate h (replicate w 0)"
  proof -
    have "map (map (\<lambda>(a, b). a / complex_of_real b)) P = map (map (\<lambda>b. 0)) cnt"
      by (simp add: P comp_def)
    also have "\<dots> = map (\<lambda>r. replicate w 0) cnt"
      using rows by (intro map_cong refl) (simp add: map_replicate_const)
    also have "\<dots> = replicate h (replicate w 0)"
      using len by (simp add: map_replicate_const)
    finally show ?thesis .
  qed
  have "np_binop Pair (replicate h (replicate w (0::complex))) cnt = Inr P"
    by (simp only: np_binop_same_shape [OF z assms(1)] P_def)
  then show ?thesis
    unfolding np_divide_def and_then_def using nz val by simp
qed

lemma np_minus_zeros:
  fixes F :: "complex array2"
  assumes "is_shape h w F"
  shows "np_binop (-) F (replicate h (replicate w 0)) = Inr F"
proof -
  have z: "is_shape h w (replicate h (replicate w (0::complex)))"
    by (simp add: is_shape_def list_all_iff)
  have len: "length F = h" and rows: "\<And>r. r \<in> set F \<Longrightarrow> length r = w"
    using assms by (auto simp: is_shape_def list_all_iff)
  have "map2 (map2 (-)) F (replicate h (replicate w 0)) = map (\<lambda>r. map2 (-) r (replicate w 0)) F"
    using len by (intro map2_replicate) simp
  also have "\<dots> = map (\<lambda>r. r) F"
  proof (intro map_cong refl)
    fix r :: "complex list" assume "r \<in> set F"
    then have "length r \<le> w" using rows by simp
    then have "map2 (-) r (replicate w 0) = map (\<lambda>v. v - 0) r" by (rule map2_replicate)
    then show "map2 (-) r (replicate w 0) = r" by simp
  qed
  finally show ?thesis by (simp add: np_binop_same_shape [OF assms z])
qed

text \<open>
  Claim C5. Let the spectrum estimate and the energy-normalization map be \<open>N \<times> N\<close>, every
  entry of the map at least 1, and the windows those of the geometry (\<open>pitch > 0\<close>,
  \<open>0 \<le> L \<le> N\<close>). If \<open>gradient_tensor\<close> holds a zero \<open>L \<times> L\<close> block for each of the
  \<open>total_frame\<close> windows, then the scatter-accumulation, the division by the map and the
  update \<open>imageRecoverFT - lr * gradient_sum / counts\<close> raise nothing and leave the
  estimate as it was, for every learning rate.
\<close>

theorem zero_gradient_fixed_point:
  assumes "is_shape (nat N) (nat N) imageRecoverFT"
    and "is_shape (nat N) (nat N) cnt" and "all_entries (\<lambda>v. 1 \<le> v) cnt"
    and "0 < pitch" and "0 \<le> L" and "L \<le> N"
    and "geometry N pitch = Inr (tf, xl, yl)"
    and "length gradient_tensor = nat tf"
    and "\<forall>block \<in> set gradient_tensor. block = replicate (nat L) (replicate (nat L) 0)"
  shows "gd_update N L tf xl yl lr cnt imageRecoverFT gradient_tensor = Inr imageRecoverFT"
proof -
  have N: "0 \<le> N" using assms(5,6) by simp
  define Z :: "complex array2" where "Z = replicate (nat N) (replicate (nat N) 0)"
  have z: "zeros2 N N = Inr Z" using N by (simp add: zeros2_def Z_def)
  have Zs: "is_shape (nat N) (nat N) Z" by (simp add: Z_def is_shape_def list_all_iff)
  note fr = geometry_frames [OF assms(7,4) N]
  note co = geometry_coordinates [OF assms(7) N]
  have "\<forall>i \<in> set [0..<nat tf]. i < length xl \<and> i < length yl \<and> i < length gradient_tensor
          \<and> 0 \<le> xl ! i \<and> xl ! i < N \<and> 0 \<le> yl ! i \<and> yl ! i < N
          \<and> gradient_tensor ! i = replicate (nat L) (replicate (nat L) 0)"
  proof
    fix i assume "i \<in> set [0..<nat tf]"
    then have i: "i < length xl" "i < length yl" "i < length gradient_tensor"
      using fr assms(8) by simp_all
    then have "xl ! i \<in> set xl" "yl ! i \<in> set yl" "gradient_tensor ! i \<in> set gradient_tensor"
      by simp_all
    with co assms(9) i show "i < length xl \<and> i < length yl \<and> i < length gradient_tensor
          \<and> 0 \<le> xl ! i \<and> xl ! i < N \<and> 0 \<le> yl ! i \<and> yl ! i < N
          \<and> gradient_tensor ! i = replicate (nat L) (replicate (nat L) 0)"
      by auto
  qed
  then have acc: "accumulate_loop N L xl yl gradient_tensor [0..<nat tf] Z = Inr Z"
    by (rule accumulate_loop_zeros [OF Zs assms(5,6)])
  have sc: "map (map (\<lambda>v. complex_of_real lr * v)) Z = Z" by (simp add: Z_def)
  show ?thesis
    using z acc sc np_divide_zeros [OF assms(2,3)] np_minus_zeros [OF assms(1)]
    by (simp add: gd_update_def and_then_def Z_def)
qed

theorem zero_gradient_fixed_point_witness:
  "is_shape (nat 3) (nat 3) [[1, 2, 3], [4, 5, 6], [7, 8, 9 :: complex]]
   \<and> is_shape (nat 3) (nat 3) [[4, 4, 4], [4, 4, 4], [4, 4, 4 :: real]]
   \<and> geometry 3 1 = Inr (9, [0, 1, 2, 0, 1, 2, 0, 1, 2], [0, 0, 0, 1, 1, 1, 2, 2, 2])
   \<and> gd_update 3 2 9 [0, 1, 2, 0, 1, 2, 0, 1, 2] [0, 0, 0, 1, 1, 1, 2, 2, 2] (1 / 2)
        [[4, 4, 4], [4, 4, 4], [4, 4, 4]] [[1, 2, 3], [4, 5, 6], [7, 8, 9]]
        (replicate 9 [[0, 0], [0, 0]])
      = Inr [[1, 2, 3], [4, 5, 6], [7, 8, 9]]"
proof -
  have s: "is_shape (nat 3) (nat 3) [[1, 2, 3], [4, 5, 6], [7, 8, 9 :: complex]]"
    and c: "is_shape (nat 3) (nat 3) [[4, 4, 4], [4, 4, 4], [4, 4, 4 :: real]]"
    and a: "all_entries (\<lambda>v. 1 \<le> v) [[4, 4, 4], [4, 4, 4], [4, 4, 4 :: real]]"
    by (simp_all add: is_shape_def all_entries_def)
  have g: "geometry 3 1 = Inr (9, [0, 1, 2, 0, 1, 2, 0, 1, 2], [0, 0, 0, 1, 1, 1, 2, 2, 2])"
    by code_simp
  have l: "length (replicate 9 [[0, 0], [0, 0 :: complex]]) = nat 9" by simp
  have z: "\<forall>block \<in> set (replicate 9 [[0, 0], [0, 0 :: complex]]).
      block = replicate (nat 2) (replicate (nat 2) 0)"
    by (simp add: numeral_2_eq_2)
  have "(0::int) < 1" and "(0::int) \<le> 2" and "(2::int) \<le> 3" by simp_all
  from zero_gradient_fixed_point [OF s c a this g l z] s c g show ?thesis by simp
qed

subsection \<open>Shapes through the transforms and the forward chain\<close>












subsection \<open>Slice assignment keeps the shape; when it cannot fail\<close>











subsection \<open>One projection step cannot fail on a well-formed configuration\<close>












subsection \<open>The loops of the two stages\<close>









subsection \<open>The preparation of a trial\<close>














subsection \<open>The solver stages run the steps they were asked for\<close>











subsection \<open>Nothing is validated before the solver stages\<close>









end
